theory Spec2Isabelle
  imports Main "HOL-Library.Word"
begin

unbundle bit_operations_syntax

section \<open>The BK5000 client: data model\<close>

text \<open>
  The development embeds the frame pipeline of \<^verbatim>\<open>sksurgerybk/interface/bk5000.py\<close>.
  A byte of the \<^verbatim>\<open>bytearray\<close> buffer, and an element of the \<^verbatim>\<open>uint8\<close> array
  \<^verbatim>\<open>np_buffer\<close>, is an 8-bit word. Python integers (indices, sizes, the window geometry)
  are unbounded and modelled as \<^typ>\<open>int\<close>. Every exception the code can raise is an
  error value.
\<close>

type_synonym u8 = "8 word"

datatype py_error = IndexError | ValueError | BufferError

subsection \<open>Python and NumPy primitives used by the class\<close>

text \<open>
  Normalisation of one bound of a slice \<^verbatim>\<open>xs[i:j]\<close> over a sequence of length \<open>n\<close>:
  a negative bound counts from the end, and the result is clamped to \<open>0..n\<close>.
\<close>

definition slice_bound :: "nat \<Rightarrow> int \<Rightarrow> nat" where
  "slice_bound n i =
     (if i < 0 then (if int n + i < 0 then 0 else nat (int n + i))
      else if int n < i then n else nat i)"

text \<open>\<^verbatim>\<open>xs[i:]\<close>, \<^verbatim>\<open>xs[:j]\<close> and \<^verbatim>\<open>xs[i:j]\<close>.\<close>

definition slice_from :: "'a list \<Rightarrow> int \<Rightarrow> 'a list" where
  "slice_from xs i = drop (slice_bound (length xs) i) xs"

definition slice_to :: "'a list \<Rightarrow> int \<Rightarrow> 'a list" where
  "slice_to xs j = take (slice_bound (length xs) j) xs"

definition slice :: "'a list \<Rightarrow> int \<Rightarrow> int \<Rightarrow> 'a list" where
  "slice xs i j =
     (let lo = slice_bound (length xs) i; hi = slice_bound (length xs) j
      in take (hi - lo) (drop lo xs))"

text \<open>\<^verbatim>\<open>np.where(cond)[0]\<close>: the indices, in increasing order, at which a condition holds.\<close>

definition np_where :: "('a \<Rightarrow> bool) \<Rightarrow> 'a list \<Rightarrow> nat list" where
  "np_where p xs = filter (\<lambda>i. p (xs ! i)) [0..<length xs]"

text \<open>
  Reading one element of an array through an integer index as NumPy's index arrays do:
  a negative index counts from the end. It is only applied to indices in
  \<open>-length xs ..< length xs\<close>; the callers check the range where the code can leave it.
\<close>

definition np_item :: "'a list \<Rightarrow> int \<Rightarrow> 'a" where
  "np_item xs i = (if i < 0 then xs ! nat (int (length xs) + i) else xs ! nat i)"

section \<open>Searching the buffer\<close>

text \<open>
  \<^verbatim>\<open>find_first_a_not_preceded_by_b(self, start_pos, a, b)\<close>. The array \<^verbatim>\<open>self.np_buffer\<close>
  is the first argument. Reading \<^verbatim>\<open>trimmed_buffer[0]\<close> of an empty array raises
  \<^verbatim>\<open>IndexError\<close>. In the second branch the first element is not \<open>a\<close>, so
  every index in \<open>a_idx\<close> is at least 1 and \<open>a_idx - 1\<close> stays inside the array.
\<close>

definition find_first_a_not_preceded_by_b :: "u8 list \<Rightarrow> int \<Rightarrow> u8 \<Rightarrow> u8 \<Rightarrow> py_error + int" where
  "find_first_a_not_preceded_by_b np_buffer start_pos a b =
     (let trimmed_buffer = slice_from np_buffer start_pos in
      if trimmed_buffer = [] then Inl IndexError
      else if trimmed_buffer ! 0 = a then Inr 0
      else
        let a_idx = np_where (\<lambda>x. x = a) trimmed_buffer;
            not_b_idx = np_where (\<lambda>i. np_item trimmed_buffer (int i - 1) \<noteq> b) a_idx
        in if length not_b_idx > 0
           then Inr (start_pos + int (a_idx ! (not_b_idx ! 0)))
           else Inr (- 1))"

section \<open>Trimming the buffer\<close>

text \<open>
  \<^verbatim>\<open>clear_bytes_in_buffer(self, start, end)\<close>: the bound \<open>end\<close> is capped at the length
  and \<^verbatim>\<open>del self.buffer[start:end]\<close> removes the slice (nothing when it is empty).
  The function returns the new contents of \<^verbatim>\<open>self.buffer\<close>. This is the method on a
  bytearray whose memory no other object exports.
\<close>

definition clear_bytes_in_buffer :: "u8 list \<Rightarrow> int \<Rightarrow> int \<Rightarrow> u8 list" where
  "clear_bytes_in_buffer buffer start end =
     (let end' = (if end \<ge> int (length buffer) then int (length buffer) else end);
          lo = slice_bound (length buffer) start;
          hi = slice_bound (length buffer) end'
      in if lo < hi then take lo buffer @ drop hi buffer else buffer)"

text \<open>
  A bytearray whose memory is exported, as it is while an array made by
  \<^verbatim>\<open>np.frombuffer\<close> is alive, cannot change its size: removing a non-empty slice and
  clearing a non-empty bytearray raise \<^verbatim>\<open>BufferError\<close> and leave the bytes in place.
  \<open>clear_bytes_in_buffer_exported\<close> is \<^verbatim>\<open>clear_bytes_in_buffer\<close> and
  \<open>bytearray_clear_exported\<close> is \<^verbatim>\<open>self.buffer.clear()\<close> on such a bytearray.
\<close>

definition clear_bytes_in_buffer_exported :: "u8 list \<Rightarrow> int \<Rightarrow> int \<Rightarrow> py_error + u8 list" where
  "clear_bytes_in_buffer_exported buffer start end =
     (let end' = (if end \<ge> int (length buffer) then int (length buffer) else end);
          lo = slice_bound (length buffer) start;
          hi = slice_bound (length buffer) end'
      in if lo < hi then Inl BufferError else Inr buffer)"

definition bytearray_clear_exported :: "u8 list \<Rightarrow> py_error + u8 list" where
  "bytearray_clear_exported buffer = (if buffer = [] then Inr [] else Inl BufferError)"

section \<open>Reversing the byte stuffing\<close>

text \<open>
  \<^verbatim>\<open>self.control_bits\<close> and \<^verbatim>\<open>self.flipped_control_bits\<close> of the constructor.
\<close>

definition control_bits :: "u8 list" where
  "control_bits = [1, 4, 27]"

definition flipped_control_bits :: "u8 list" where
  "flipped_control_bits = map (\<lambda>bit. bit XOR 0xFF) control_bits"

text \<open>\<^verbatim>\<open>np.delete(arr, idx)\<close> for indices inside the array: the elements at the other positions.\<close>

definition np_delete :: "'a list \<Rightarrow> nat list \<Rightarrow> 'a list" where
  "np_delete xs idx = map (\<lambda>i. xs ! i) (filter (\<lambda>i. i \<notin> set idx) [0..<length xs])"

text \<open>
  \<^verbatim>\<open>decode_image(self)\<close>, with the array \<^verbatim>\<open>self.np_buffer\<close> as argument. The result is
  the pair of the returned array and of the contents of \<^verbatim>\<open>self.np_buffer\<close> after the
  in-place \<^verbatim>\<open>^= 0xFF\<close>. The index array \<^verbatim>\<open>uc27_idx + 1\<close> leaves the array when its
  last element is 27, and indexing with it then raises \<^verbatim>\<open>IndexError\<close>, before anything is
  written. The augmented assignment reads all the bytes to flip first and then stores them.
\<close>

definition decode_image :: "u8 list \<Rightarrow> py_error + (u8 list \<times> u8 list)" where
  "decode_image np_buffer =
     (let uc27_idx = np_where (\<lambda>x. x = control_bits ! 2) np_buffer in
      if \<exists>i \<in> set uc27_idx. length np_buffer \<le> i + 1 then Inl IndexError
      else
        let idx_to_del = concat (map (\<lambda>bit.
                let idx = np_where (\<lambda>i. np_buffer ! (i + 1) = bit) uc27_idx
                in map (\<lambda>k. uc27_idx ! k) idx) flipped_control_bits);
            flipped = map (\<lambda>i. np_buffer ! (i + 1) XOR 0xFF) idx_to_del;
            np_buffer' = fold (\<lambda>(i, v) buf. buf[i + 1 := v]) (zip idx_to_del flipped) np_buffer;
            result = np_delete np_buffer' idx_to_del
        in Inr (result, np_buffer'))"

section \<open>The image\<close>

text \<open>
  A two-dimensional \<^verbatim>\<open>uint8\<close> array: its shape and its elements in row-major order.
  \<open>tolist\<close> gives the rows.
\<close>

record ndarray =
  nrows :: nat
  ncols :: nat
  elems :: "u8 list"

definition tolist :: "ndarray \<Rightarrow> u8 list list" where
  "tolist arr = map (\<lambda>r. take (ncols arr) (drop (r * ncols arr) (elems arr))) [0..<nrows arr]"

text \<open>
  \<^verbatim>\<open>arr.reshape(d0, d1)\<close> of a one-dimensional array. A negative entry stands for the
  dimension to infer, and only one entry may do so; the sizes must agree, otherwise
  \<^verbatim>\<open>ValueError\<close>. The limits of NumPy's index type are not modelled.
\<close>

definition np_reshape :: "u8 list \<Rightarrow> int \<Rightarrow> int \<Rightarrow> py_error + ndarray" where
  "np_reshape xs d0 d1 =
     (if d0 < 0 \<and> d1 < 0 then Inl ValueError
      else if d0 < 0 then
        (if d1 = 0 \<or> int (length xs) mod d1 \<noteq> 0 then Inl ValueError
         else Inr \<lparr>nrows = length xs div nat d1, ncols = nat d1, elems = xs\<rparr>)
      else if d1 < 0 then
        (if d0 = 0 \<or> int (length xs) mod d0 \<noteq> 0 then Inl ValueError
         else Inr \<lparr>nrows = nat d0, ncols = length xs div nat d0, elems = xs\<rparr>)
      else if d0 * d1 \<noteq> int (length xs) then Inl ValueError
      else Inr \<lparr>nrows = nat d0, ncols = nat d1, elems = xs\<rparr>)"

text \<open>
  Lines 338-339 of \<^verbatim>\<open>receive_image\<close>:
  \<^verbatim>\<open>result[:self.pixels_in_image].reshape(self.image_size[1], self.image_size[0])\<close>.
  Reading \<^verbatim>\<open>self.image_size[1]\<close> or \<^verbatim>\<open>self.image_size[0]\<close> of a shorter list raises
  \<^verbatim>\<open>IndexError\<close>.
\<close>

definition make_img :: "u8 list \<Rightarrow> int \<Rightarrow> int list \<Rightarrow> py_error + ndarray" where
  "make_img result pixels image_sz =
     (if length image_sz < 2 then Inl IndexError
      else np_reshape (slice_to result pixels) (image_sz ! 1) (image_sz ! 0))"

section \<open>The scanner state\<close>

text \<open>
  The fields of the \<^verbatim>\<open>BK5000\<close> object that the frame pipeline reads and writes.
  \<^verbatim>\<open>self.np_buffer\<close> is not a field of its own here: \<^verbatim>\<open>np.frombuffer(self.buffer)\<close>
  is a view that shares the memory of \<^verbatim>\<open>self.buffer\<close>, so the functions above receive
  the viewed bytes as an argument and the bytes written through the view are stored back
  into \<open>buffer\<close> (see \<open>decode_view\<close>). The view of line 288 stays alive to the end of
  \<^verbatim>\<open>receive_image\<close>, so every change of the buffer's size inside the method is made on
  an exported bytearray.
\<close>

record bk5000 =
  buffer :: "u8 list"
  image_size :: "int list"
  pixels_in_image :: int
  img :: "ndarray option"

text \<open>\<^verbatim>\<open>s.encode('utf-8')\<close> of an ASCII literal.\<close>

definition encode :: "string \<Rightarrow> u8 list" where
  "encode s = map (\<lambda>c. of_nat (of_char c)) s"

text \<open>
  \<^verbatim>\<open>self.buffer.find(sub, start)\<close> for a non-empty \<open>sub\<close>: the lowest index at or after
  \<open>start\<close> where \<open>sub\<close> occurs, or -1.
\<close>

definition bytearray_find :: "u8 list \<Rightarrow> u8 list \<Rightarrow> int \<Rightarrow> int" where
  "bytearray_find buf sub start =
     (case List.find (\<lambda>i. take (length sub) (drop i buf) = sub)
             [slice_bound (length buf) start..<length buf] of
        Some i \<Rightarrow> int i
      | None \<Rightarrow> - 1)"

text \<open>\<^verbatim>\<open>self.buffer[i]\<close> for an index \<open>i \<ge> 0\<close>: the byte as an integer, or \<^verbatim>\<open>IndexError\<close>.\<close>

definition bytearray_item :: "u8 list \<Rightarrow> int \<Rightarrow> py_error + int" where
  "bytearray_item buf i =
     (if 0 \<le> i \<and> i < int (length buf) then Inr (uint (buf ! nat i)) else Inl IndexError)"

section \<open>Extracting a frame\<close>

text \<open>
  Lines 325-332 of \<^verbatim>\<open>receive_image\<close>: the indices \<^verbatim>\<open>start_image_char\<close> and
  \<^verbatim>\<open>end_image_char\<close>. \<^verbatim>\<open>hash_char\<close> is -1 when there is no \<^verbatim>\<open>#\<close>, so
  \<^verbatim>\<open>size_of_data_char\<close> is never negative.
\<close>

definition payload_window :: "u8 list \<Rightarrow> int \<Rightarrow> int \<Rightarrow> py_error + (int \<times> int)" where
  "payload_window buf msg_start_idx msg_end_idx =
     (let hash_char = bytearray_find buf (encode ''#'') msg_start_idx;
          size_of_data_char = hash_char + 1
      in case bytearray_item buf size_of_data_char of
           Inl e \<Rightarrow> Inl e
         | Inr digit \<Rightarrow>
             let start_image_char = size_of_data_char + 1 + 4 + digit - 48;
                 end_image_char = msg_end_idx - 2
             in Inr (start_image_char, end_image_char))"

text \<open>
  Lines 334-336: \<^verbatim>\<open>self.np_buffer = self.np_buffer[i:j]\<close> followed by
  \<^verbatim>\<open>result = self.decode_image()\<close>. The slice is a view of the buffer's memory, so the
  bytes that \<open>decode_image\<close> flips in place are flipped in \<open>buffer\<close>.
\<close>

definition decode_view :: "bk5000 \<Rightarrow> int \<Rightarrow> int \<Rightarrow> (py_error + u8 list) \<times> bk5000" where
  "decode_view s i j =
     (let lo = slice_bound (length (buffer s)) i;
          np_buffer = slice (buffer s) i j
      in case decode_image np_buffer of
           Inl e \<Rightarrow> (Inl e, s)
         | Inr (result, np_buffer') \<Rightarrow>
             (Inr result,
              s\<lparr>buffer := take lo (buffer s) @ np_buffer' @ drop (lo + length np_buffer') (buffer s)\<rparr>))"

text \<open>
  Lines 324-345: the decode step. An exception leaves the method at once, with the
  object as it is at that point: the image is stored before the trim of line 342 is
  tried.
\<close>

definition decode_step :: "bk5000 \<Rightarrow> int \<Rightarrow> int \<Rightarrow> (py_error + bool) \<times> bk5000" where
  "decode_step s msg_start_idx msg_end_idx =
     (case payload_window (buffer s) msg_start_idx msg_end_idx of
        Inl e \<Rightarrow> (Inl e, s)
      | Inr (start_image_char, end_image_char) \<Rightarrow>
          (case decode_view s start_image_char (end_image_char + 1) of
             (Inl e, s1) \<Rightarrow> (Inl e, s1)
           | (Inr result, s1) \<Rightarrow>
               (case make_img result (pixels_in_image s1) (image_size s1) of
                  Inl e \<Rightarrow> (Inl e, s1)
                | Inr im \<Rightarrow>
                    let s2 = s1\<lparr>img := Some im\<rparr> in
                    (case clear_bytes_in_buffer_exported (buffer s2) 0 (msg_end_idx + 1) of
                       Inl e \<Rightarrow> (Inl e, s2)
                     | Inr buffer' \<Rightarrow> (Inr True, s2\<lparr>buffer := buffer'\<rparr>)))))"

text \<open>
  \<^verbatim>\<open>receive_image(self)\<close>: the returned \<^verbatim>\<open>valid_frame\<close>, or the exception raised, and the
  object afterwards.
\<close>

definition receive_image :: "bk5000 \<Rightarrow> (py_error + bool) \<times> bk5000" where
  "receive_image s =
     (case find_first_a_not_preceded_by_b (buffer s) 0 0x01 0x27 of
        Inl e \<Rightarrow> (Inl e, s)
      | Inr msg_start_idx \<Rightarrow>
          if msg_start_idx < 0 then
            (case bytearray_clear_exported (buffer s) of
               Inl e \<Rightarrow> (Inl e, s)
             | Inr buffer' \<Rightarrow> (Inr False, s\<lparr>buffer := buffer'\<rparr>))
          else
            (case find_first_a_not_preceded_by_b (buffer s) msg_start_idx 0x04 0x27 of
               Inl e \<Rightarrow> (Inl e, s)
             | Inr msg_end_idx \<Rightarrow>
                 if msg_end_idx \<le> msg_start_idx then (Inr False, s)
                 else
                   let img_msg = encode ''DATA:GRAB_FRAME'';
                       img_msg_index = bytearray_find (buffer s) img_msg msg_start_idx
                   in if \<not> (img_msg_index \<noteq> - 1 \<and>
                             msg_start_idx < img_msg_index \<and> img_msg_index < msg_end_idx)
                      then
                        (case clear_bytes_in_buffer_exported (buffer s) 0 (msg_end_idx + 1) of
                           Inl e \<Rightarrow> (Inl e, s)
                         | Inr buffer' \<Rightarrow> (Inr False, s\<lparr>buffer := buffer'\<rparr>))
                      else decode_step s msg_start_idx msg_end_idx))"

section \<open>The window-size response\<close>

text \<open>
  The response is a Python \<^verbatim>\<open>str\<close>; its characters are modelled by \<^typ>\<open>char\<close>, which covers
  the code points below 256. \<open>is_space\<close> is \<^verbatim>\<open>str.isspace\<close> on that range and
  \<open>is_digit\<close> the decimal digits \<^verbatim>\<open>int\<close> accepts there.
\<close>

definition is_space :: "char \<Rightarrow> bool" where
  "is_space c = ((of_char c :: nat) \<in> {9, 10, 11, 12, 13, 28, 29, 30, 31, 32, 133, 160})"

definition is_digit :: "char \<Rightarrow> bool" where
  "is_digit c = (48 \<le> (of_char c :: nat) \<and> (of_char c :: nat) \<le> 57)"

text \<open>\<^verbatim>\<open>s.split()\<close>: the maximal runs of characters that are not whitespace.\<close>

function str_split :: "string \<Rightarrow> string list" where
  "str_split [] = []"
| "str_split (c # cs) =
     (if is_space c then str_split cs
      else (c # takeWhile (\<lambda>x. \<not> is_space x) cs) # str_split (dropWhile (\<lambda>x. \<not> is_space x) cs))"
  by pat_completeness auto
termination
  by (relation "measure length") (auto simp: less_Suc_eq_le length_dropWhile_le)

text \<open>\<^verbatim>\<open>s.strip(chars)\<close>: the characters satisfying \<open>p\<close> are removed from both ends.\<close>

definition str_strip :: "(char \<Rightarrow> bool) \<Rightarrow> string \<Rightarrow> string" where
  "str_strip p s = rev (dropWhile p (rev (dropWhile p s)))"

text \<open>\<^verbatim>\<open>s.split(sep)\<close> for a one-character separator: there is always at least one piece.\<close>

fun split_on :: "char \<Rightarrow> string \<Rightarrow> string list" where
  "split_on sep [] = [[]]"
| "split_on sep (c # cs) =
     (if c = sep then [] # split_on sep cs
      else (c # hd (split_on sep cs)) # tl (split_on sep cs))"

text \<open>
  \<^verbatim>\<open>int(s)\<close> in base 10: surrounding whitespace is dropped, one sign is allowed, and the
  digits may be grouped by single underscores. Anything else raises \<^verbatim>\<open>ValueError\<close>.
  The interpreter's limit on the number of digits is not modelled.
\<close>

fun valid_digits :: "string \<Rightarrow> bool" where
  "valid_digits [] = False"
| "valid_digits [c] = is_digit c"
| "valid_digits (c # d # cs) =
     (is_digit c \<and> (if d = CHR ''_'' then valid_digits cs else valid_digits (d # cs)))"

definition digits_value :: "string \<Rightarrow> int" where
  "digits_value ds =
     foldl (\<lambda>acc c. 10 * acc + (int (of_char c) - 48)) 0 (filter (\<lambda>c. c \<noteq> CHR ''_'') ds)"

definition py_int :: "string \<Rightarrow> py_error + int" where
  "py_int s =
     (let t = str_strip is_space s;
          neg = (t \<noteq> [] \<and> hd t = CHR ''-'');
          ds = (if t \<noteq> [] \<and> (hd t = CHR ''-'' \<or> hd t = CHR ''+'') then tl t else t)
      in if valid_digits ds
         then Inr (if neg then - digits_value ds else digits_value ds)
         else Inl ValueError)"

text \<open>The list comprehension \<^verbatim>\<open>[int(s) for s in ...]\<close>: the first failure is raised.\<close>

fun int_each :: "string list \<Rightarrow> py_error + int list" where
  "int_each [] = Inr []"
| "int_each (t # ts) =
     (case py_int t of
        Inl e \<Rightarrow> Inl e
      | Inr v \<Rightarrow> (case int_each ts of Inl e \<Rightarrow> Inl e | Inr vs \<Rightarrow> Inr (v # vs)))"

text \<open>
  \<^verbatim>\<open>parse_win_size_message(self, message)\<close>. \<^verbatim>\<open>message.split()[-1]\<close> raises
  \<^verbatim>\<open>IndexError\<close> when there is no token; \<^verbatim>\<open>self.image_size\<close> is assigned before the
  product reads its first two elements. There is no check on the values.
\<close>

definition parse_win_size_message :: "bk5000 \<Rightarrow> string \<Rightarrow> (py_error + unit) \<times> bk5000" where
  "parse_win_size_message s message =
     (let tokens = str_split message in
      if tokens = [] then (Inl IndexError, s)
      else
        let dim_part_of_message =
              split_on CHR '','' (str_strip (\<lambda>c. c = CHR '';'') (last tokens))
        in case int_each dim_part_of_message of
             Inl e \<Rightarrow> (Inl e, s)
           | Inr sizes \<Rightarrow>
               let s1 = s\<lparr>image_size := sizes\<rparr> in
               if length sizes < 2 then (Inl IndexError, s1)
               else (Inr (), s1\<lparr>pixels_in_image := sizes ! 0 * sizes ! 1\<rparr>))"

section \<open>Reference notions\<close>

text \<open>
  The notions the statements below compare the code with. An index \<open>i\<close> of \<open>xs\<close>, at or
  after \<open>sp\<close>, holds an unescaped \<open>a\<close> when the byte is \<open>a\<close> and either \<open>i\<close> is the first
  position of the window that starts at \<open>sp\<close> or the byte before it is not the guard \<open>b\<close>.
  \<open>first_unescaped\<close> is the first such index.
\<close>

definition first_unescaped :: "u8 list \<Rightarrow> nat \<Rightarrow> u8 \<Rightarrow> u8 \<Rightarrow> nat option" where
  "first_unescaped xs sp a b =
     List.find (\<lambda>i. xs ! i = a \<and> (i = sp \<or> xs ! (i - 1) \<noteq> b)) [sp..<length xs]"

text \<open>
  The unescape transform, read from left to right: a 27 followed by a flipped control
  value is dropped and the value is complemented; any other byte is kept.
\<close>

fun unescape :: "u8 list \<Rightarrow> u8 list" where
  "unescape (x # y # zs) =
     (if x = 27 \<and> y \<in> {254, 251, 228} then (y XOR 0xFF) # unescape zs
      else x # unescape (y # zs))"
| "unescape xs = xs"

text \<open>Whether a sequence holds a 27 followed by a flipped control value.\<close>

fun has_escape :: "u8 list \<Rightarrow> bool" where
  "has_escape (x # y # zs) = ((x = 27 \<and> y \<in> {254, 251, 228}) \<or> has_escape (y # zs))"
| "has_escape xs = False"

text \<open>The decimal numeral of an integer, as \<^verbatim>\<open>str\<close> prints it.\<close>

fun digits_of :: "nat \<Rightarrow> string" where
  "digits_of n =
     (if n < 10 then [char_of (48 + n)] else digits_of (n div 10) @ [char_of (48 + n mod 10)])"

declare digits_of.simps [simp del]

definition decimal :: "int \<Rightarrow> string" where
  "decimal i = (if i < 0 then CHR ''-'' # digits_of (nat (- i)) else digits_of (nat i))"

text \<open>The first index at or after \<open>sp\<close> that holds the byte \<open>a\<close>.\<close>

definition first_byte :: "u8 list \<Rightarrow> nat \<Rightarrow> u8 \<Rightarrow> nat option" where
  "first_byte xs sp a = List.find (\<lambda>i. xs ! i = a) [sp..<length xs]"

text \<open>
  Two local values of \<open>decode_image\<close> as functions of the array: the index array
  \<^verbatim>\<open>idx_to_del\<close> and the array after the in-place \<^verbatim>\<open>^= 0xFF\<close>.
\<close>

definition idx_to_del_of :: "u8 list \<Rightarrow> nat list" where
  "idx_to_del_of w =
     (let uc27_idx = np_where (\<lambda>x. x = control_bits ! 2) w in
      concat (map (\<lambda>bit. map (\<lambda>k. uc27_idx ! k) (np_where (\<lambda>i. w ! (i + 1) = bit) uc27_idx))
                flipped_control_bits))"

definition flipped_array :: "u8 list \<Rightarrow> u8 list" where
  "flipped_array w =
     fold (\<lambda>(i, v) buf. buf[i + 1 := v])
       (zip (idx_to_del_of w) (map (\<lambda>i. w ! (i + 1) XOR 0xFF) (idx_to_del_of w))) w"

section \<open>Properties of the search\<close>

lemma find_eq_filter: "List.find P xs = (case filter P xs of [] \<Rightarrow> None | x # _ \<Rightarrow> Some x)"
  by (induction xs) auto

lemma find_map_list: "List.find P (map f xs) = map_option f (List.find (P \<circ> f) xs)"
  by (induction xs) auto

lemma np_where_nth: "map (\<lambda>k. ys ! k) (np_where p ys) = filter p ys"
proof -
  have "map (\<lambda>k. ys ! k) (np_where p ys) = filter p (map (\<lambda>k. ys ! k) [0..<length ys])"
    by (simp add: np_where_def filter_map comp_def)
  then show ?thesis by (simp add: map_nth)
qed

lemma np_where_Nil: "np_where p ys = [] \<longleftrightarrow> filter p ys = []"
  using np_where_nth [of ys p] by (metis map_is_Nil_conv)

lemma np_where_first: "np_where p ys \<noteq> [] \<Longrightarrow> ys ! (np_where p ys ! 0) = hd (filter p ys)"
  using np_where_nth [of ys p] by (metis hd_conv_nth hd_map)

lemma slice_from_nat: "sp \<le> length xs \<Longrightarrow> slice_from xs (int sp) = drop sp xs"
  by (simp add: slice_from_def slice_bound_def)

text \<open>
  When the byte at \<open>start_pos\<close> is not the target, the search returns the first
  unescaped target after it, as an index of the whole array, or -1.
\<close>

lemma find_first_else:
  assumes sp: "sp < length xs" and ne: "xs ! sp \<noteq> a"
  shows "find_first_a_not_preceded_by_b xs (int sp) a b =
           Inr (case first_unescaped xs sp a b of Some i \<Rightarrow> int i | None \<Rightarrow> - 1)"
proof -
  define t where "t = drop sp xs"
  define m where "m = length xs - sp"
  define Q where "Q = (\<lambda>i. t ! i = a \<and> np_item t (int i - 1) \<noteq> b)"
  define F where "F = filter Q [0..<m]"
  have lt: "length t = m" and t0: "t \<noteq> []" "t ! 0 \<noteq> a"
    using sp ne by (simp_all add: t_def m_def)
  have a_idx: "filter (\<lambda>i. np_item t (int i - 1) \<noteq> b) (np_where (\<lambda>x. x = a) t) = F"
    by (simp add: np_where_def F_def Q_def lt)
  have PQ: "(xs ! (i + sp) = a \<and> (i + sp = sp \<or> xs ! (i + sp - 1) \<noteq> b)) = Q i" if "i < m" for i
  proof (cases i)
    case 0
    then show ?thesis using t0 ne by (simp add: Q_def)
  next
    case (Suc j)
    have "t ! i = xs ! (i + sp)" "t ! j = xs ! (j + sp)"
      using that Suc sp by (simp_all add: t_def m_def add.commute)
    then show ?thesis using Suc by (simp add: Q_def np_item_def)
  qed
  have "[sp..<length xs] = map (\<lambda>i. i + sp) [0..<m]"
    using sp by (simp add: map_add_upt m_def)
  then have "first_unescaped xs sp a b =
      map_option (\<lambda>i. i + sp)
        (List.find (\<lambda>i. xs ! (i + sp) = a \<and> (i + sp = sp \<or> xs ! (i + sp - 1) \<noteq> b)) [0..<m])"
    by (simp add: first_unescaped_def find_map_list comp_def)
  also have "List.find (\<lambda>i. xs ! (i + sp) = a \<and> (i + sp = sp \<or> xs ! (i + sp - 1) \<noteq> b)) [0..<m]
      = List.find Q [0..<m]"
    by (rule find_cong) (use PQ in simp_all)
  finally have fu: "first_unescaped xs sp a b = (case F of [] \<Rightarrow> None | i # _ \<Rightarrow> Some (i + sp))"
    by (simp add: find_eq_filter F_def split: list.splits)
  have sl: "slice_from xs (int sp) = t"
    using sp by (simp add: slice_from_nat t_def)
  show ?thesis
  proof (cases F)
    case Nil
    then show ?thesis
      using t0 a_idx by (simp add: find_first_a_not_preceded_by_b_def sl Let_def np_where_Nil fu)
  next
    case (Cons i F')
    then have "np_where (\<lambda>i. np_item t (int i - 1) \<noteq> b) (np_where (\<lambda>x. x = a) t) \<noteq> []"
      using a_idx by (simp add: np_where_Nil)
    then show ?thesis
      using t0 a_idx Cons
        np_where_first [of "\<lambda>i. np_item t (int i - 1) \<noteq> b" "np_where (\<lambda>x. x = a) t"]
      by (simp add: find_first_a_not_preceded_by_b_def sl Let_def fu)
  qed
qed

text \<open>When the byte at \<open>start_pos\<close> is the target, the search returns 0.\<close>

lemma find_first_hit:
  assumes "sp < length xs" and "xs ! sp = a"
  shows "find_first_a_not_preceded_by_b xs (int sp) a b = Inr 0"
  using assms by (simp add: find_first_a_not_preceded_by_b_def slice_from_nat Let_def)

text \<open>From offset 0 the search is the reference search on every non-empty array.\<close>

lemma find_first_from_0:
  assumes "xs \<noteq> []"
  shows "find_first_a_not_preceded_by_b xs 0 a b =
           Inr (case first_unescaped xs 0 a b of Some i \<Rightarrow> int i | None \<Rightarrow> - 1)"
proof (cases "xs ! 0 = a")
  case True
  have "[0..<length xs] = 0 # [1..<length xs]"
    using assms by (simp add: upt_conv_Cons)
  then have "first_unescaped xs 0 a b = Some 0"
    using True by (simp add: first_unescaped_def)
  then show ?thesis
    using find_first_hit [of 0 xs a b] assms True by simp
next
  case False
  then show ?thesis
    using find_first_else [of 0 xs a b] assms by simp
qed

text \<open>
  C1. The search is meant to return an index of the array at or after \<open>start_pos\<close>. When
  the byte at a positive \<open>start_pos\<close> is the target itself, the code returns 0, the index
  inside the trimmed window, and not \<open>start_pos\<close>: on the array \<open>[5, 7]\<close>, searching 7
  from position 1, the answer is 0, where the array holds 5, while the first unescaped 7
  at or after position 1 is at index 1.
\<close>

theorem find_first_window_index:
  "find_first_a_not_preceded_by_b [5, 7] 1 7 0 = Inr 0 \<and> first_unescaped [5, 7] 1 7 0 = Some 1"
  by code_simp

text \<open>
  C4. The scanner passes the guard \<open>0x27\<close> (39) to both searches, not the escape byte
  \<open>0x1B\<close> (27) that \<open>decode_image\<close> reverses. In the message \<open>[0x01, 0x41, 0x27, 0x04]\<close>
  the end marker at index 3 is not preceded by \<open>0x1B\<close>, and the reference search with guard
  \<open>0x1B\<close> finds it; the scanner's search with \<open>0x27\<close> finds no end, and \<open>receive_image\<close>
  reports an incomplete message and keeps the buffer.
\<close>

theorem receive_image_guard_0x27:
  "first_unescaped [0x01, 0x41, 0x27, 0x04] 0 0x04 0x1B = Some 3 \<and>
   find_first_a_not_preceded_by_b [0x01, 0x41, 0x27, 0x04] 0 0x04 0x27 = Inr (- 1) \<and>
   receive_image \<lparr>buffer = [0x01, 0x41, 0x27, 0x04], image_size = [2, 2],
                   pixels_in_image = 4, img = None\<rparr> =
     (Inr False, \<lparr>buffer = [0x01, 0x41, 0x27, 0x04], image_size = [2, 2],
                   pixels_in_image = 4, img = None\<rparr>)"
  by code_simp

section \<open>Properties of the trim\<close>



section \<open>Properties of the unescape step\<close>

lemma set_np_where: "set (np_where p xs) = {i. i < length xs \<and> p (xs ! i)}"
  by (auto simp: np_where_def)

lemma control_bits_2: "control_bits ! 2 = 27"
  by (simp add: control_bits_def)

lemma set_idx_to_del_of:
  "set (idx_to_del_of w) = {i. i < length w \<and> w ! i = 27 \<and> w ! (i + 1) \<in> set flipped_control_bits}"
proof -
  have "idx_to_del_of w =
      concat (map (\<lambda>bit. filter (\<lambda>i. w ! (i + 1) = bit) (np_where (\<lambda>x. x = 27) w))
                flipped_control_bits)"
    by (simp add: idx_to_del_of_def Let_def np_where_nth control_bits_2)
  then show ?thesis
    by (auto simp: set_np_where)
qed

lemma fold_update_nth:
  "p < length buf \<Longrightarrow>
   fold (\<lambda>(i, v) buf. buf[i + 1 := v]) (zip idx (map g idx)) buf ! p =
     (if \<exists>k \<in> set idx. k + 1 = p then g (p - 1) else buf ! p)"
proof (induction idx arbitrary: buf)
  case Nil
  then show ?case by simp
next
  case (Cons k ks)
  then show ?case by (auto simp: nth_list_update)
qed

lemma fold_update_length:
  "length (fold (\<lambda>(i, v) buf. buf[f i := v]) ivs buf) = length buf"
  by (induction ivs arbitrary: buf) auto

lemma decode_image_raises:
  "decode_image w = Inl e \<longleftrightarrow> w \<noteq> [] \<and> last w = 27 \<and> e = IndexError"
proof -
  have "(\<exists>i\<in>set (np_where (\<lambda>x. x = control_bits ! 2) w). length w \<le> i + 1)
          \<longleftrightarrow> w \<noteq> [] \<and> last w = 27"
  proof
    assume "\<exists>i\<in>set (np_where (\<lambda>x. x = control_bits ! 2) w). length w \<le> i + 1"
    then obtain i where "i < length w" "w ! i = 27" "length w \<le> i + 1"
      by (auto simp: set_np_where control_bits_2)
    then have "w \<noteq> []" "i = length w - 1" by auto
    then show "w \<noteq> [] \<and> last w = 27" using \<open>w ! i = 27\<close> by (auto simp: last_conv_nth)
  next
    assume "w \<noteq> [] \<and> last w = 27"
    then have "length w - 1 < length w" "w ! (length w - 1) = 27"
      by (auto simp: last_conv_nth)
    then show "\<exists>i\<in>set (np_where (\<lambda>x. x = control_bits ! 2) w). length w \<le> i + 1"
      by (auto simp: set_np_where control_bits_2 intro!: exI [of _ "length w - 1"])
  qed
  then show ?thesis
    by (auto simp: decode_image_def Let_def)
qed

lemma decode_image_returns:
  assumes "w = [] \<or> last w \<noteq> 27"
  shows "decode_image w = Inr (np_delete (flipped_array w) (idx_to_del_of w), flipped_array w)"
proof -
  have "\<not> (\<exists>e. decode_image w = Inl e)"
    using assms by (auto simp: decode_image_raises)
  then show ?thesis
    by (auto simp: decode_image_def Let_def idx_to_del_of_def flipped_array_def split: if_splits)
qed

lemma length_flipped_array: "length (flipped_array w) = length w"
  by (simp add: flipped_array_def fold_update_length)

lemma flipped_array_nth:
  assumes "p < length w"
  shows "flipped_array w ! p =
     (if 0 < p \<and> w ! (p - 1) = 27 \<and> w ! p \<in> set flipped_control_bits then w ! p XOR 0xFF else w ! p)"
proof -
  have "(\<exists>k\<in>set (idx_to_del_of w). k + 1 = p) \<longleftrightarrow>
          0 < p \<and> w ! (p - 1) = 27 \<and> w ! p \<in> set flipped_control_bits"
    using assms by (cases p) (auto simp: set_idx_to_del_of)
  then show ?thesis
    using fold_update_nth [of p w "idx_to_del_of w" "\<lambda>i. w ! (i + 1) XOR 0xFF"] assms
    by (cases p) (auto simp: flipped_array_def)
qed

section \<open>The unescape step and the reference transform\<close>

lemma set_flipped_control_bits: "set flipped_control_bits = {254, 251, 228}"
  by (simp add: flipped_control_bits_def control_bits_def)

lemma map_filter_concat:
  "map f (filter P xs) = concat (map (\<lambda>x. if P x then [f x] else []) xs)"
  by (induction xs) auto

lemma np_delete_concat:
  "np_delete xs idx = concat (map (\<lambda>i. if i \<in> set idx then [] else [xs ! i]) [0..<length xs])"
  unfolding np_delete_def map_filter_concat by (intro arg_cong [where f = concat] map_cong) auto

lemma idx_to_del_iff:
  assumes nt: "w = [] \<or> last w \<noteq> 27" and i: "i < length w"
  shows "i \<in> set (idx_to_del_of w) \<longleftrightarrow>
           w ! i = 27 \<and> i + 1 < length w \<and> w ! (i + 1) \<in> {254, 251, 228}"
proof -
  have "i + 1 < length w" if "w ! i = 27"
  proof (rule ccontr)
    assume "\<not> i + 1 < length w"
    then have "i = length w - 1" using i by simp
    moreover have "w \<noteq> []" using i by auto
    ultimately have "last w = 27" using that by (simp add: last_conv_nth)
    then show False using nt i by auto
  qed
  then show ?thesis
    using i by (auto simp: set_idx_to_del_of set_flipped_control_bits)
qed

lemma unescape_suffix:
  assumes nt: "w = [] \<or> last w \<noteq> 27"
  shows "k \<le> length w \<Longrightarrow> k = 0 \<or> w ! (k - 1) \<noteq> 27 \<or> w ! k \<notin> {254, 251, 228} \<Longrightarrow>
         concat (map (\<lambda>i. if i \<in> set (idx_to_del_of w) then [] else [flipped_array w ! i])
                   [k..<length w]) = unescape (drop k w)"
proof (induction "length w - k" arbitrary: k rule: less_induct)
  case less
  let ?f = "\<lambda>i. if i \<in> set (idx_to_del_of w) then [] else [flipped_array w ! i]"
  let ?F = "{254, 251, 228} :: u8 set"
  have keep: "flipped_array w ! k = w ! k" if "k < length w"
    using less.prems(2) that by (auto simp: flipped_array_nth set_flipped_control_bits)
  consider (finished) "k = length w" | (one) "Suc k = length w" | (more) "Suc k < length w"
    using less.prems(1) by linarith
  then show ?case
  proof cases
    case finished
    then show ?thesis by simp
  next
    case one
    then have k: "k < length w" by simp
    have "k \<notin> set (idx_to_del_of w)"
      using one idx_to_del_iff [OF nt k] by simp
    moreover have "[k..<length w] = [k]"
      using one by (simp add: upt_rec)
    moreover have "drop k w = [w ! k]"
      using one k by (metis Cons_nth_drop_Suc drop_all order_refl)
    ultimately show ?thesis
      using keep [OF k] by simp
  next
    case more
    then have k: "k < length w" by simp
    have upt: "[k..<length w] = k # Suc k # [Suc (Suc k)..<length w]"
      using more by (simp add: upt_rec)
    have dr: "drop k w = w ! k # w ! Suc k # drop (Suc (Suc k)) w"
      using more k by (simp add: Cons_nth_drop_Suc)
    show ?thesis
    proof (cases "w ! k = 27 \<and> w ! Suc k \<in> ?F")
      case True
      then have "w ! Suc k \<noteq> 27" by auto
      then have nd: "Suc k \<notin> set (idx_to_del_of w)"
        using idx_to_del_iff [OF nt more] by simp
      have d: "k \<in> set (idx_to_del_of w)"
        using True more idx_to_del_iff [OF nt k] by simp
      have fl: "flipped_array w ! Suc k = w ! Suc k XOR 0xFF"
        using True more by (simp add: flipped_array_nth set_flipped_control_bits)
      have "concat (map ?f [Suc (Suc k)..<length w]) = unescape (drop (Suc (Suc k)) w)"
        using more \<open>w ! Suc k \<noteq> 27\<close> by (intro less.hyps) simp_all
      then show ?thesis
        using True d nd fl by (simp add: upt dr)
    next
      case False
      then have nd: "k \<notin> set (idx_to_del_of w)"
        using idx_to_del_iff [OF nt k] by auto
      have "concat (map ?f [Suc k..<length w]) = unescape (drop (Suc k) w)"
        using more False by (intro less.hyps) auto
      moreover have "[k..<length w] = k # [Suc k..<length w]"
        using k by (simp add: upt_rec)
      moreover have "drop (Suc k) w = w ! Suc k # drop (Suc (Suc k)) w"
        using more by (simp add: Cons_nth_drop_Suc)
      ultimately show ?thesis
        using False nd keep [OF k] dr by auto
    qed
  qed
qed

lemma decode_image_unescape:
  assumes "w = [] \<or> last w \<noteq> 27"
  shows "decode_image w = Inr (unescape w, flipped_array w)"
proof -
  have "np_delete (flipped_array w) (idx_to_del_of w) = unescape (drop 0 w)"
    unfolding np_delete_concat length_flipped_array
    by (rule unescape_suffix [OF assms]) simp_all
  then show ?thesis
    using decode_image_returns [OF assms] by simp
qed

text \<open>
  On every array that does not end in 27, \<open>decode_image\<close> returns the reference
  transform of the array; an array without escape sequence is returned as it is.
\<close>

lemma unescape_no_escape: "\<not> has_escape w \<Longrightarrow> unescape w = w"
  by (induction w rule: unescape.induct) auto

lemma decode_image_no_escape:
  assumes "w = [] \<or> last w \<noteq> 27" and "\<not> has_escape w"
  shows "\<exists>w'. decode_image w = Inr (w, w')"
  using decode_image_unescape [OF assms(1)] unescape_no_escape [OF assms(2)] by simp

text \<open>
  C2. The unescape transform is meant to be total, and to return a sequence without
  escape pattern unchanged. On an array whose last byte is 27, such as \<open>[10, 27]\<close>, which
  holds no escape pattern, the index array \<^verbatim>\<open>uc27_idx + 1\<close> points behind the array and
  \<open>decode_image\<close> raises \<^verbatim>\<open>IndexError\<close> instead of returning \<open>[10, 27]\<close>.
\<close>

theorem decode_image_trailing_27:
  "decode_image [10, 27] = Inl IndexError \<and> unescape [10, 27] = [10, 27]"
  by code_simp

section \<open>Properties of the scanner\<close>

lemma first_unescaped_SomeD:
  assumes "first_unescaped xs sp a b = Some i"
  shows "sp \<le> i" "i < length xs" "xs ! i = a" "i = sp \<or> xs ! (i - 1) \<noteq> b"
  using assms by (auto simp: first_unescaped_def find_Some_iff)

lemma slice_bound_le: "slice_bound n i \<le> n"
  by (auto simp: slice_bound_def)

lemma slice_bound_nat: "k \<le> n \<Longrightarrow> slice_bound n (int k) = k"
  by (simp add: slice_bound_def)

lemma bytearray_find_cases:
  "bytearray_find buf sub start = - 1 \<or>
   (\<exists>i. bytearray_find buf sub start = int i \<and> slice_bound (length buf) start \<le> i \<and>
        i < length buf \<and> take (length sub) (drop i buf) = sub \<and>
        (\<forall>j. slice_bound (length buf) start \<le> j \<and> j < i \<longrightarrow> take (length sub) (drop j buf) \<noteq> sub))"
proof (cases "List.find (\<lambda>i. take (length sub) (drop i buf) = sub)
                [slice_bound (length buf) start..<length buf]")
  case None
  then show ?thesis by (simp add: bytearray_find_def)
next
  case (Some i)
  then obtain k where k: "k < length buf - slice_bound (length buf) start"
      "i = slice_bound (length buf) start + k"
      "take (length sub) (drop i buf) = sub"
      "\<forall>j<k. take (length sub) (drop (slice_bound (length buf) start + j) buf) \<noteq> sub"
    by (auto simp: find_Some_iff)
  have nomatch: "take (length sub) (drop j buf) \<noteq> sub"
    if "slice_bound (length buf) start \<le> j" "j < i" for j
    using k(4) [rule_format, of "j - slice_bound (length buf) start"] that k(2) by simp
  have "bytearray_find buf sub start = int i"
    using Some by (simp add: bytearray_find_def)
  moreover have "slice_bound (length buf) start \<le> i" "i < length buf"
    using k(1,2) by simp_all
  ultimately show ?thesis
    using k(3) nomatch by blast
qed

lemma bytearray_find_found:
  assumes "slice_bound (length buf) start \<le> i" "i < length buf" "take (length sub) (drop i buf) = sub"
  shows "\<exists>i0. bytearray_find buf sub start = int i0 \<and> slice_bound (length buf) start \<le> i0 \<and> i0 \<le> i
           \<and> take (length sub) (drop i0 buf) = sub"
proof -
  have "List.find (\<lambda>i. take (length sub) (drop i buf) = sub)
          [slice_bound (length buf) start..<length buf] \<noteq> None"
    using assms by (auto simp: find_None_iff)
  then have ne: "bytearray_find buf sub start \<noteq> - 1"
    by (auto simp: bytearray_find_def)
  then obtain i0 where i0: "bytearray_find buf sub start = int i0"
      "slice_bound (length buf) start \<le> i0" "take (length sub) (drop i0 buf) = sub"
      "\<forall>j. slice_bound (length buf) start \<le> j \<and> j < i0 \<longrightarrow> take (length sub) (drop j buf) \<noteq> sub"
    using bytearray_find_cases [of buf sub start] by auto
  have "i0 \<le> i"
    using i0(4) assms by (meson not_le_imp_less)
  then show ?thesis using i0 by auto
qed

lemma encode_tag_hd: "encode ''DATA:GRAB_FRAME'' = 68 # tl (encode ''DATA:GRAB_FRAME'')"
  by (simp add: encode_def)

lemma receive_image_located:
  assumes fs: "first_unescaped (buffer s) 0 0x01 0x27 = Some st"
    and fe: "first_unescaped (buffer s) st 0x04 0x27 = Some e"
    and tag: "st < i" "i < e"
      "take (length (encode ''DATA:GRAB_FRAME'')) (drop i (buffer s)) = encode ''DATA:GRAB_FRAME''"
  shows "receive_image s = decode_step s (int st) (int e)"
proof -
  note s1 = first_unescaped_SomeD [OF fs]
  note e1 = first_unescaped_SomeD [OF fe]
  have ne: "buffer s \<noteq> []" using s1 by auto
  have start: "find_first_a_not_preceded_by_b (buffer s) 0 0x01 0x27 = Inr (int st)"
    using find_first_from_0 [OF ne, of 1 "0x27"] fs by simp
  have "buffer s ! st \<noteq> 0x04" using s1 by simp
  then have "end": "find_first_a_not_preceded_by_b (buffer s) (int st) 0x04 0x27 = Inr (int e)"
    using find_first_else [of st "buffer s" 4 "0x27"] s1 fe by simp
  have "st \<noteq> e" using s1 e1 by auto
  then have lt: "st < e" using e1 by simp
  obtain i0 where i0: "bytearray_find (buffer s) (encode ''DATA:GRAB_FRAME'') (int st) = int i0"
      "st \<le> i0" "i0 \<le> i"
      "take (length (encode ''DATA:GRAB_FRAME'')) (drop i0 (buffer s)) = encode ''DATA:GRAB_FRAME''"
    using bytearray_find_found [of "buffer s" "int st" i "encode ''DATA:GRAB_FRAME''"] tag e1 s1
    by (auto simp: slice_bound_nat)
  have "i0 < length (buffer s)" using i0 tag e1 by simp
  then have "buffer s ! i0 = 68"
    using i0(4) encode_tag_hd
    by (metis hd_drop_conv_nth hd_take length_greater_0_conv list.sel(1) list.simps(3))
  then have "i0 \<noteq> st" using s1 by auto
  then have "st < i0" "i0 < e" using i0 tag by simp_all
  then show ?thesis
    using start "end" lt i0(1) by (simp add: receive_image_def Let_def)
qed

text \<open>
  With the guard \<open>0x27\<close> that the scanner passes to its searches: when a start marker
  is found and no end marker after it, \<open>receive_image\<close> returns \<open>False\<close> and leaves the
  object as it was.
\<close>

lemma receive_image_incomplete:
  assumes fs: "first_unescaped (buffer s) 0 0x01 0x27 = Some st"
    and fe: "first_unescaped (buffer s) st 0x04 0x27 = None"
  shows "receive_image s = (Inr False, s)"
proof -
  note s1 = first_unescaped_SomeD [OF fs]
  have ne: "buffer s \<noteq> []" using s1 by auto
  have start: "find_first_a_not_preceded_by_b (buffer s) 0 0x01 0x27 = Inr (int st)"
    using find_first_from_0 [OF ne, of 1 "0x27"] fs by simp
  have "buffer s ! st \<noteq> 0x04" using s1 by simp
  then have "find_first_a_not_preceded_by_b (buffer s) (int st) 0x04 0x27 = Inr (- 1)"
    using find_first_else [of st "buffer s" 4 "0x27"] s1 fe by simp
  then show ?thesis
    using start by (simp add: receive_image_def)
qed

text \<open>
  C5. A buffer with an unescaped start marker and no unescaped end marker after it must
  give the incomplete outcome and stay as it is. In \<open>[0x01, 0x1B, 0x04]\<close> the start marker
  is at index 0 and the only \<open>0x04\<close> follows the escape byte \<open>0x1B\<close>, so there is no
  unescaped end marker. The scanner searches with the guard \<open>0x27\<close>, takes the \<open>0x04\<close> at
  index 2 for the end of a message that is not an image, and goes on to discard the
  bytes \<open>0..2\<close>; the trim raises \<^verbatim>\<open>BufferError\<close> on the exported bytearray, so the call
  does not report an incomplete message.
\<close>

theorem receive_image_escaped_end_taken:
  "first_unescaped [0x01, 0x1B, 0x04] 0 0x01 0x1B = Some 0 \<and>
   first_unescaped [0x01, 0x1B, 0x04] 0 0x04 0x1B = None \<and>
   find_first_a_not_preceded_by_b [0x01, 0x1B, 0x04] 0 0x04 0x27 = Inr 2 \<and>
   clear_bytes_in_buffer [0x01, 0x1B, 0x04] 0 (2 + 1) = [] \<and>
   receive_image \<lparr>buffer = [0x01, 0x1B, 0x04], image_size = [2, 2],
                   pixels_in_image = 4, img = None\<rparr> =
     (Inl BufferError, \<lparr>buffer = [0x01, 0x1B, 0x04], image_size = [2, 2],
                         pixels_in_image = 4, img = None\<rparr>)"
  by code_simp

lemma slice_length_le: "slice_bound (length xs) i + length (slice xs i j) \<le> max (slice_bound (length xs) i) (slice_bound (length xs) j)"
  by (simp add: slice_def Let_def)

lemma decode_view_cases:
  fixes s i j
  defines "lo \<equiv> slice_bound (length (buffer s)) i"
  defines "w \<equiv> slice (buffer s) i j"
  shows "(\<exists>err. decode_view s i j = (Inl err, s)) \<or>
         decode_view s i j =
           (Inr (np_delete (flipped_array w) (idx_to_del_of w)),
            s\<lparr>buffer := take lo (buffer s) @ flipped_array w @ drop (lo + length w) (buffer s)\<rparr>)"
proof (cases "decode_image w")
  case (Inl err)
  then show ?thesis by (simp add: decode_view_def w_def Let_def)
next
  case (Inr p)
  then have "w = [] \<or> last w \<noteq> 27"
    using decode_image_raises [of w] by (metis sum.distinct(1))
  then have "decode_image w = Inr (np_delete (flipped_array w) (idx_to_del_of w), flipped_array w)"
    by (rule decode_image_returns)
  then show ?thesis
    by (simp add: decode_view_def w_def [symmetric] lo_def [symmetric] Let_def length_flipped_array)
qed

lemma slice_fits: "slice_bound (length xs) i + length (slice xs i j) \<le> length xs"
  using slice_length_le [of xs i j] slice_bound_le [of "length xs" i] slice_bound_le [of "length xs" j]
  by linarith

lemma length_decode_view: "length (buffer (snd (decode_view s i j))) = length (buffer s)"
  using decode_view_cases [of s i j] slice_fits [of "buffer s" i j]
  by (auto simp: length_flipped_array)

lemma decode_view_unescape:
  assumes "slice (buffer s) i j = [] \<or> last (slice (buffer s) i j) \<noteq> 27"
  shows "fst (decode_view s i j) = Inr (unescape (slice (buffer s) i j))"
  using decode_image_unescape [OF assms] by (simp add: decode_view_def Let_def)

lemma decode_view_fields:
  "pixels_in_image (snd (decode_view s i j)) = pixels_in_image s"
  "image_size (snd (decode_view s i j)) = image_size s"
  "img (snd (decode_view s i j)) = img s"
  by (simp_all add: decode_view_def Let_def split: sum.splits prod.splits)

lemma clear_exported_raises:
  assumes "buf \<noteq> []"
  shows "clear_bytes_in_buffer_exported buf 0 (int e + 1) = Inl BufferError"
  using assms by (auto simp: clear_bytes_in_buffer_exported_def slice_bound_def Let_def)

text \<open>
  The decode step when the unescape step returns: a failing reshape leaves with its
  error; otherwise the image is stored and the trim raises.
\<close>

lemma decode_step_value:
  assumes pw: "payload_window (buffer s) m (int e) = Inr (a, b)"
    and nt: "slice (buffer s) a (b + 1) = [] \<or> last (slice (buffer s) a (b + 1)) \<noteq> 27"
    and ne: "buffer s \<noteq> []"
  shows "decode_step s m (int e) =
           (case make_img (unescape (slice (buffer s) a (b + 1))) (pixels_in_image s) (image_size s) of
              Inl err \<Rightarrow> (Inl err, snd (decode_view s a (b + 1)))
            | Inr im \<Rightarrow> (Inl BufferError, (snd (decode_view s a (b + 1)))\<lparr>img := Some im\<rparr>))"
proof -
  obtain r s1 where dv: "decode_view s a (b + 1) = (r, s1)"
    by (cases "decode_view s a (b + 1)")
  have r: "r = Inr (unescape (slice (buffer s) a (b + 1)))"
    using decode_view_unescape [OF nt] dv by simp
  have f: "pixels_in_image s1 = pixels_in_image s" "image_size s1 = image_size s"
    using decode_view_fields [of s a "b + 1"] dv by simp_all
  have "length (buffer s1) = length (buffer s)"
    using length_decode_view [of s a "b + 1"] dv by simp
  then have "buffer s1 \<noteq> []"
    using ne by auto
  then have tr: "clear_bytes_in_buffer_exported (buffer s1) 0 (int e + 1) = Inl BufferError"
    by (rule clear_exported_raises)
  show ?thesis
    using pw dv r f tr by (simp add: decode_step_def split: sum.splits)
qed

text \<open>
  C3, as the code has it. When the scanner has located a start marker at \<open>st\<close>, an end
  marker at \<open>e\<close> and the image tag between them, and the reshape of the unescaped
  payload fails, \<open>receive_image\<close> raises that error out of the decode step, before the
  trim: the object is the one the unescape step left, and no byte has been removed from
  the buffer.
\<close>

theorem receive_image_reshape_failure_keeps_buffer:
  assumes fs: "first_unescaped (buffer s) 0 0x01 0x27 = Some st"
    and fe: "first_unescaped (buffer s) st 0x04 0x27 = Some e"
    and tag: "st < i" "i < e"
      "take (length (encode ''DATA:GRAB_FRAME'')) (drop i (buffer s)) = encode ''DATA:GRAB_FRAME''"
    and pw: "payload_window (buffer s) (int st) (int e) = Inr (a, b)"
    and nt: "slice (buffer s) a (b + 1) = [] \<or> last (slice (buffer s) a (b + 1)) \<noteq> 27"
    and bad: "make_img (unescape (slice (buffer s) a (b + 1))) (pixels_in_image s) (image_size s)
                = Inl err"
  shows "receive_image s = (Inl err, snd (decode_view s a (b + 1))) \<and>
         length (buffer (snd (decode_view s a (b + 1)))) = length (buffer s)"
proof -
  have ne: "buffer s \<noteq> []"
    using first_unescaped_SomeD(2) [OF fe] by auto
  have "receive_image s = decode_step s (int st) (int e)"
    using fs fe tag by (rule receive_image_located)
  then show ?thesis
    using decode_step_value [OF pw nt ne] bad length_decode_view [of s a "b + 1"] by simp
qed

theorem receive_image_reshape_failure_keeps_buffer_witness:
  "receive_image \<lparr>buffer = [0x01] @ encode ''DATA:GRAB_FRAME#0abcd'' @ [10, 27, 254, 30, 9, 0x04],
                   image_size = [2, 2], pixels_in_image = 4, img = None\<rparr> =
     (Inl ValueError,
      \<lparr>buffer = [0x01] @ encode ''DATA:GRAB_FRAME#0abcd'' @ [10, 27, 1, 30, 9, 0x04],
       image_size = [2, 2], pixels_in_image = 4, img = None\<rparr>) \<and>
   length ([0x01] @ encode ''DATA:GRAB_FRAME#0abcd'' @ [10, 27, 1, 30, 9, 0x04]) =
   length ([0x01] @ encode ''DATA:GRAB_FRAME#0abcd'' @ [10, 27, 254, 30, 9, 0x04])"
proof -
  let ?B = "[0x01] @ encode ''DATA:GRAB_FRAME#0abcd'' @ [10, 27, 254, 30, 9, 0x04 :: u8]"
  let ?s = "\<lparr>buffer = ?B, image_size = [2, 2], pixels_in_image = 4, img = None\<rparr>"
  have h1: "first_unescaped (buffer ?s) 0 0x01 0x27 = Some 0"
    by code_simp
  have h2: "first_unescaped (buffer ?s) 0 0x04 0x27 = Some 27"
    by code_simp
  have h3: "(0::nat) < 1" "(1::nat) < 27"
    "take (length (encode ''DATA:GRAB_FRAME'')) (drop 1 (buffer ?s)) = encode ''DATA:GRAB_FRAME''"
    by code_simp+
  have h4: "payload_window (buffer ?s) (int 0) (int 27) = Inr (22, 25)"
    by code_simp
  have h5: "slice (buffer ?s) 22 (25 + 1) = [] \<or> last (slice (buffer ?s) 22 (25 + 1)) \<noteq> 27"
    by code_simp
  have h6: "make_img (unescape (slice (buffer ?s) 22 (25 + 1))) (pixels_in_image ?s) (image_size ?s)
              = Inl ValueError"
    by code_simp
  have dv: "snd (decode_view ?s 22 (25 + 1)) =
      \<lparr>buffer = [0x01] @ encode ''DATA:GRAB_FRAME#0abcd'' @ [10, 27, 1, 30, 9, 0x04],
       image_size = [2, 2], pixels_in_image = 4, img = None\<rparr>"
    by code_simp
  have len: "length (buffer ?s) =
      length ([0x01] @ encode ''DATA:GRAB_FRAME#0abcd'' @ [10, 27, 1, 30, 9, 0x04 :: u8])"
    by code_simp
  have "receive_image ?s = (Inl ValueError, snd (decode_view ?s 22 (25 + 1))) \<and>
        length (buffer (snd (decode_view ?s 22 (25 + 1)))) = length (buffer ?s)"
    by (rule receive_image_reshape_failure_keeps_buffer [OF h1 h2 h3 h4 h5 h6])
  then show ?thesis
    unfolding dv len by simp
qed

text \<open>
  When the image is produced, it is stored and the trim of line 342 is tried on the
  exported bytearray: the call raises \<^verbatim>\<open>BufferError\<close> and removes no byte either.
\<close>

lemma receive_image_trim_raises:
  assumes fs: "first_unescaped (buffer s) 0 0x01 0x27 = Some st"
    and fe: "first_unescaped (buffer s) st 0x04 0x27 = Some e"
    and tag: "st < i" "i < e"
      "take (length (encode ''DATA:GRAB_FRAME'')) (drop i (buffer s)) = encode ''DATA:GRAB_FRAME''"
    and pw: "payload_window (buffer s) (int st) (int e) = Inr (a, b)"
    and nt: "slice (buffer s) a (b + 1) = [] \<or> last (slice (buffer s) a (b + 1)) \<noteq> 27"
    and good: "make_img (unescape (slice (buffer s) a (b + 1))) (pixels_in_image s) (image_size s)
                = Inr im"
  shows "receive_image s = (Inl BufferError, (snd (decode_view s a (b + 1)))\<lparr>img := Some im\<rparr>)"
proof -
  have ne: "buffer s \<noteq> []"
    using first_unescaped_SomeD(2) [OF fe] by auto
  have "receive_image s = decode_step s (int st) (int e)"
    using fs fe tag by (rule receive_image_located)
  then show ?thesis
    using decode_step_value [OF pw nt ne] good by simp
qed

text \<open>
  C3 as stated, that the bytes are cleared whatever the outcome, fails on a frame whose
  payload has three bytes while the geometry asks for four: the start is at 0, the end
  at 26, the tag at 1, the reshape raises \<^verbatim>\<open>ValueError\<close> and the buffer is left whole.
\<close>

theorem receive_image_keeps_buffer_on_reshape_error:
  "first_unescaped ([0x01] @ encode ''DATA:GRAB_FRAME#0abcd'' @ [10, 20, 30, 9, 0x04]) 0 0x01 0x27 = Some 0 \<and>
   first_unescaped ([0x01] @ encode ''DATA:GRAB_FRAME#0abcd'' @ [10, 20, 30, 9, 0x04]) 0 0x04 0x27 = Some 26 \<and>
   bytearray_find ([0x01] @ encode ''DATA:GRAB_FRAME#0abcd'' @ [10, 20, 30, 9, 0x04])
     (encode ''DATA:GRAB_FRAME'') 0 = 1 \<and>
   receive_image \<lparr>buffer = [0x01] @ encode ''DATA:GRAB_FRAME#0abcd'' @ [10, 20, 30, 9, 0x04],
                   image_size = [2, 2], pixels_in_image = 4, img = None\<rparr> =
     (Inl ValueError,
      \<lparr>buffer = [0x01] @ encode ''DATA:GRAB_FRAME#0abcd'' @ [10, 20, 30, 9, 0x04],
       image_size = [2, 2], pixels_in_image = 4, img = None\<rparr>)"
  by code_simp

lemma take_one_drop: "j < length xs \<Longrightarrow> take (Suc 0) (drop j xs) = [xs ! j]"
  by (metis Cons_nth_drop_Suc take0 take_Suc_Cons)

lemma take_drop_map_nth:
  assumes "a + n \<le> length xs"
  shows "take n (drop a xs) = map (\<lambda>p. xs ! p) [a..<a + n]"
  using assms by (intro nth_equalityI) simp_all

lemma bytearray_find_hash:
  assumes "first_byte buf st 0x23 = Some h"
  shows "bytearray_find buf (encode ''#'') (int st) = int h"
proof -
  have h: "st \<le> h" "h < length buf" "buf ! h = 0x23"
    using assms by (auto simp: first_byte_def find_Some_iff)
  have before: "buf ! j \<noteq> 0x23" if "st \<le> j" "j < h" for j
  proof -
    obtain k where k: "k < length [st..<length buf]" "h = [st..<length buf] ! k"
        "\<forall>j<k. buf ! ([st..<length buf] ! j) \<noteq> 0x23"
      using assms by (auto simp: first_byte_def find_Some_iff)
    have "j - st < k" "[st..<length buf] ! (j - st) = j"
      using that k(1,2) by auto
    then show ?thesis using k(3) by metis
  qed
  have enc: "encode ''#'' = [0x23]" by (simp add: encode_def)
  have sb: "slice_bound (length buf) (int st) = st"
    using h by (simp add: slice_bound_nat)
  have "take (length (encode ''#'')) (drop h buf) = encode ''#''"
    using h by (simp add: enc take_one_drop)
  then obtain i0 where i0: "bytearray_find buf (encode ''#'') (int st) = int i0"
      "st \<le> i0" "i0 \<le> h" "take (length (encode ''#'')) (drop i0 buf) = encode ''#''"
    using bytearray_find_found [of buf "int st" h "encode ''#''"] h sb by auto
  have "buf ! i0 = 0x23"
    using i0 h by (simp add: enc take_one_drop)
  then have "i0 = h"
    using before i0 by (metis le_neq_implies_less)
  then show ?thesis using i0 by simp
qed

text \<open>
  C9. In a buffer whose message starts at \<open>st\<close> and ends at \<open>e\<close>, let \<open>h\<close> be the index
  of the first \<^verbatim>\<open>#\<close> at or after \<open>st\<close>, and let the byte after it be the ASCII digit of
  \<open>digit_count\<close>. Then \<open>1 + 4 + digit_count\<close> bytes lie between the \<^verbatim>\<open>#\<close> and the
  payload window: its first index is \<open>h + 1 + (1 + 4 + digit_count)\<close>. Its last index is
  \<open>e - 2\<close>, two below the end-of-message index, so the window handed to the decoder holds
  the bytes at the indices from \<open>h + 1 + (1 + 4 + digit_count)\<close> up to \<open>e - 2\<close>.
\<close>

theorem payload_window_position:
  assumes hash: "first_byte buf st 0x23 = Some h"
    and digit: "h + 1 < length buf" "unat (buf ! (h + 1)) = 48 + digit_count"
    and e: "st < e" "e \<le> length buf"
  shows "payload_window buf (int st) (int e) =
           Inr (int (h + 1 + (1 + 4 + digit_count)), int e - 2) \<and>
         slice buf (int (h + 1 + (1 + 4 + digit_count))) (int e - 2 + 1) =
           map (\<lambda>p. buf ! p) [h + 1 + (1 + 4 + digit_count)..<e - 1]"
proof -
  define a where "a = h + 1 + (1 + 4 + digit_count)"
  have find: "bytearray_find buf (encode ''#'') (int st) = int h"
    using hash by (rule bytearray_find_hash)
  have item: "bytearray_item buf (int h + 1) = Inr (48 + int digit_count)"
    using digit by (simp add: bytearray_item_def nat_add_distrib uint_nat)
  have pw: "payload_window buf (int st) (int e) = Inr (int a, int e - 2)"
    using find item by (simp add: payload_window_def Let_def a_def)
  have hi: "slice_bound (length buf) (int e - 1) = e - 1"
    using e by (auto simp: slice_bound_def)
  have sl: "slice buf (int a) (int e - 2 + 1) = map (\<lambda>p. buf ! p) [a..<e - 1]"
  proof (cases "a < e - 1")
    case True
    then have lo: "slice_bound (length buf) (int a) = a"
      using e by (simp add: slice_bound_nat)
    have "take (e - 1 - a) (drop a buf) = map (\<lambda>p. buf ! p) [a..<a + (e - 1 - a)]"
      using True e by (intro take_drop_map_nth) simp
    then show ?thesis
      using True by (simp add: slice_def Let_def hi lo)
  next
    case False
    then have "e - 1 \<le> slice_bound (length buf) (int a)"
      using e by (auto simp: slice_bound_def)
    then show ?thesis
      using False by (simp add: slice_def Let_def hi)
  qed
  show ?thesis
    using pw sl by (simp add: a_def)
qed

theorem payload_window_position_witness:
  "payload_window ([0x01] @ encode ''DATA:GRAB_FRAME#1abcd3'' @ [10, 20, 30, 9, 0x04]) (int 0) (int 27) =
     Inr (int (16 + 1 + (1 + 4 + 1)), int 27 - 2) \<and>
   slice ([0x01] @ encode ''DATA:GRAB_FRAME#1abcd3'' @ [10, 20, 30, 9, 0x04])
     (int (16 + 1 + (1 + 4 + 1))) (int 27 - 2 + 1) =
     map (\<lambda>p. ([0x01] @ encode ''DATA:GRAB_FRAME#1abcd3'' @ [10, 20, 30, 9, 0x04]) ! p)
       [16 + 1 + (1 + 4 + 1)..<27 - 1]"
proof -
  let ?B = "[0x01] @ encode ''DATA:GRAB_FRAME#1abcd3'' @ [10, 20, 30, 9, 0x04 :: u8]"
  have h1: "first_byte ?B 0 0x23 = Some 16"
    by code_simp
  have h2: "16 + 1 < length ?B" "unat (?B ! (16 + 1)) = 48 + 1" "(0::nat) < 27" "27 \<le> length ?B"
    by (simp_all add: encode_def)
  show ?thesis
    by (rule payload_window_position [OF h1 h2])
qed

lemma xor_ff_neq: "(x :: u8) XOR 0xFF \<noteq> x"
proof
  assume "x XOR 0xFF = x"
  then have "x XOR (x XOR 0xFF) = x XOR x" by simp
  then have "(0xFF :: u8) = 0" by (simp add: xor.assoc [symmetric])
  then show False by simp
qed

lemma slice_nth:
  assumes "p < length (slice xs i j)"
  shows "slice xs i j ! p = xs ! (slice_bound (length xs) i + p)"
  using assms slice_bound_le [of "length xs" i] by (simp add: slice_def Let_def)

text \<open>
  C10, as the code has it. The payload window is a view of the buffer's memory. Whenever
  the window holds an escape sequence, a 27 at window index \<open>k\<close> followed by a flipped
  control value, and does not end in 27, \<open>decode_image\<close> gets to its in-place update and
  the byte of \<open>buffer\<close> itself behind that 27 is complemented: after the unescape step
  the buffer differs from the buffer before it.
\<close>

theorem decode_view_flips_buffer:
  assumes k: "k + 1 < length (slice (buffer s) i j)"
    and esc: "slice (buffer s) i j ! k = 27"
      "slice (buffer s) i j ! (k + 1) \<in> set flipped_control_bits"
    and lst: "last (slice (buffer s) i j) \<noteq> 27"
  shows "\<exists>result s'. decode_view s i j = (Inr result, s') \<and>
           buffer s' ! (slice_bound (length (buffer s)) i + k + 1) =
             buffer s ! (slice_bound (length (buffer s)) i + k + 1) XOR 0xFF \<and>
           buffer s' \<noteq> buffer s"
proof -
  define lo where "lo = slice_bound (length (buffer s)) i"
  define w where "w = slice (buffer s) i j"
  define B where "B = take lo (buffer s) @ flipped_array w @ drop (lo + length w) (buffer s)"
  have "decode_image w = Inr (np_delete (flipped_array w) (idx_to_del_of w), flipped_array w)"
    using lst by (intro decode_image_returns) (simp add: w_def)
  then have dv: "decode_view s i j =
      (Inr (np_delete (flipped_array w) (idx_to_del_of w)), s\<lparr>buffer := B\<rparr>)"
    by (simp add: decode_view_def w_def [symmetric] lo_def [symmetric] B_def Let_def
        length_flipped_array)
  have lo: "lo \<le> length (buffer s)"
    unfolding lo_def by (rule slice_bound_le)
  have "B ! (lo + k + 1) = flipped_array w ! (k + 1)"
    using k lo by (simp add: B_def w_def [symmetric] nth_append length_flipped_array)
  also have "\<dots> = w ! (k + 1) XOR 0xFF"
    using k esc flipped_array_nth [of "k + 1" w] by (simp add: w_def [symmetric])
  also have "w ! (k + 1) = buffer s ! (lo + k + 1)"
    using k slice_nth [of "k + 1" "buffer s" i j] by (simp add: w_def lo_def)
  finally have flip: "B ! (lo + k + 1) = buffer s ! (lo + k + 1) XOR 0xFF" .
  then have "B \<noteq> buffer s"
    using xor_ff_neq [of "buffer s ! (lo + k + 1)"] by auto
  then show ?thesis
    using dv flip by (simp add: lo_def)
qed

theorem decode_view_flips_buffer_witness:
  "0 + 1 < length (slice (buffer \<lparr>buffer = [9, 27, 254, 5], image_size = [1, 2],
                                    pixels_in_image = 2, img = None\<rparr>) 1 4) \<and>
   slice (buffer \<lparr>buffer = [9, 27, 254, 5], image_size = [1, 2],
                   pixels_in_image = 2, img = None\<rparr>) 1 4 ! 0 = 27 \<and>
   slice (buffer \<lparr>buffer = [9, 27, 254, 5], image_size = [1, 2],
                   pixels_in_image = 2, img = None\<rparr>) 1 4 ! (0 + 1) \<in> set flipped_control_bits \<and>
   last (slice (buffer \<lparr>buffer = [9, 27, 254, 5], image_size = [1, 2],
                         pixels_in_image = 2, img = None\<rparr>) 1 4) \<noteq> 27 \<and>
   (\<exists>result s'. decode_view \<lparr>buffer = [9, 27, 254, 5], image_size = [1, 2],
                               pixels_in_image = 2, img = None\<rparr> 1 4 = (Inr result, s') \<and>
        buffer s' ! 2 = 1 \<and> buffer s' \<noteq> [9, 27, 254, 5])"
proof -
  let ?s = "\<lparr>buffer = [9, 27, 254, 5], image_size = [1, 2], pixels_in_image = 2, img = None\<rparr>"
  have sl: "slice (buffer ?s) 1 4 = [27, 254, 5]"
    by (simp add: slice_def slice_bound_def)
  have h1: "0 + 1 < length (slice (buffer ?s) 1 4)"
    and h2: "slice (buffer ?s) 1 4 ! 0 = 27"
    and h3: "slice (buffer ?s) 1 4 ! (0 + 1) \<in> set flipped_control_bits"
    and h4: "last (slice (buffer ?s) 1 4) \<noteq> 27"
    unfolding sl by (simp_all add: flipped_control_bits_def control_bits_def)
  have lo: "slice_bound (length (buffer ?s)) 1 + 0 + 1 = 2"
    by (simp add: slice_bound_def)
  have "\<exists>result s'. decode_view ?s 1 4 = (Inr result, s') \<and>
           buffer s' ! (slice_bound (length (buffer ?s)) 1 + 0 + 1) =
             buffer ?s ! (slice_bound (length (buffer ?s)) 1 + 0 + 1) XOR 0xFF \<and>
           buffer s' \<noteq> buffer ?s"
    by (rule decode_view_flips_buffer [OF h1 h2 h3 h4])
  then have "\<exists>result s'. decode_view ?s 1 4 = (Inr result, s') \<and>
        buffer s' ! 2 = 1 \<and> buffer s' \<noteq> [9, 27, 254, 5]"
    unfolding lo by simp
  then show ?thesis
    by (intro conjI h1 h2 h3 h4)
qed

text \<open>
  C10 as stated, for every window that holds an escape sequence, fails on a window that
  also ends in 27: in the buffer \<open>[9, 27, 254, 5, 27]\<close> the window of the indices 1 to 4
  holds the escape sequence \<open>27, 254\<close>, the unescape step raises \<^verbatim>\<open>IndexError\<close> before
  its in-place update, and the buffer is as it was.
\<close>

theorem decode_view_trailing_27_keeps_buffer:
  "slice [9, 27, 254, 5, 27 :: u8] 1 5 = [27, 254, 5, 27] \<and>
   has_escape [27, 254, 5, 27] \<and>
   decode_view \<lparr>buffer = [9, 27, 254, 5, 27], image_size = [1, 2],
                 pixels_in_image = 2, img = None\<rparr> 1 5 =
     (Inl IndexError, \<lparr>buffer = [9, 27, 254, 5, 27], image_size = [1, 2],
                         pixels_in_image = 2, img = None\<rparr>)"
  by code_simp

section \<open>Properties of the reshape\<close>

lemma make_img_ok:
  assumes "W * H \<le> length payload"
  shows "make_img payload (int W * int H) [int W, int H] =
           Inr \<lparr>nrows = H, ncols = W, elems = take (W * H) payload\<rparr>"
proof -
  have "slice_bound (length payload) (int W * int H) = W * H"
    using assms slice_bound_nat [of "W * H" "length payload"] by simp
  then have "slice_to payload (int W * int H) = take (W * H) payload"
    by (simp add: slice_to_def)
  moreover have "int H * int W = int (length (take (W * H) payload))"
    using assms by (simp add: mult.commute)
  ultimately show ?thesis
    by (simp add: make_img_def np_reshape_def)
qed

lemma make_img_short:
  assumes "length payload < W * H"
  shows "make_img payload (int W * int H) [int W, int H] = Inl ValueError"
proof -
  have "int (length payload) < int W * int H"
    using assms by (metis of_nat_less_iff of_nat_mult)
  then have "slice_bound (length payload) (int W * int H) = length payload"
    by (simp add: slice_bound_def)
  then have "slice_to payload (int W * int H) = payload"
    by (simp add: slice_to_def)
  moreover have "int H * int W \<noteq> int (length payload)"
    using \<open>int (length payload) < int W * int H\<close> by (simp add: mult.commute)
  ultimately show ?thesis
    by (simp add: make_img_def np_reshape_def)
qed

lemma tolist_rows:
  assumes "W * H \<le> length payload"
  shows "tolist \<lparr>nrows = H, ncols = W, elems = take (W * H) payload\<rparr> =
           map (\<lambda>r. map (\<lambda>c. payload ! (r * W + c)) [0..<W]) [0..<H]"
proof -
  have row: "take W (drop (r * W) (take (W * H) payload)) = map (\<lambda>c. payload ! (r * W + c)) [0..<W]"
    if "r < H" for r
  proof -
    have "Suc r * W \<le> H * W"
      using that by (intro mult_le_mono1) simp
    then have le: "r * W + W \<le> W * H"
      by (simp add: mult.commute)
    show ?thesis
    proof (rule nth_equalityI)
      show "length (take W (drop (r * W) (take (W * H) payload))) =
              length (map (\<lambda>c. payload ! (r * W + c)) [0..<W])"
        using le assms by simp
    next
      fix c
      assume "c < length (take W (drop (r * W) (take (W * H) payload)))"
      then have c: "c < W" by simp
      have "length (take (W * H) payload) = W * H"
        using assms by simp
      moreover have "r * W \<le> W * H" "r * W + c < W * H"
        using le c by linarith+
      ultimately have "r * W \<le> length (take (W * H) payload)" "r * W + c < W * H"
        by simp_all
      then have "drop (r * W) (take (W * H) payload) ! c = payload ! (r * W + c)"
        by simp
      then show "take W (drop (r * W) (take (W * H) payload)) ! c =
                   map (\<lambda>c. payload ! (r * W + c)) [0..<W] ! c"
        using c by simp
    qed
  qed
  show ?thesis
    by (simp add: tolist_def row)
qed

text \<open>
  C7, as the code has it. For a geometry of width \<open>W\<close> and height \<open>H\<close> and a decoded
  payload of at least \<open>W * H\<close> bytes, the decode step takes the first \<open>W * H\<close> bytes and
  reshapes them row-major into \<open>H\<close> rows of \<open>W\<close> bytes: row \<open>r\<close>, column \<open>c\<close> holds payload
  byte \<open>r * W + c\<close>, and the bytes beyond are dropped. When the payload is shorter than
  \<open>W * H\<close> the reshape raises \<^verbatim>\<open>ValueError\<close> and there is no image.
\<close>

theorem make_img_reshape:
  "(W * H \<le> length payload \<longrightarrow>
      make_img payload (int W * int H) [int W, int H] =
        Inr \<lparr>nrows = H, ncols = W, elems = take (W * H) payload\<rparr> \<and>
      tolist \<lparr>nrows = H, ncols = W, elems = take (W * H) payload\<rparr> =
        map (\<lambda>r. map (\<lambda>c. payload ! (r * W + c)) [0..<W]) [0..<H]) \<and>
   (length payload < W * H \<longrightarrow>
      make_img payload (int W * int H) [int W, int H] = Inl ValueError)"
  using make_img_ok [of W H payload] make_img_short [of payload W H] tolist_rows [of W H payload]
  by blast

theorem make_img_reshape_witness:
  "2 * 2 \<le> length [10, 20, 30, 40 :: u8] \<and>
   make_img [10, 20, 30, 40] (int 2 * int 2) [int 2, int 2] =
     Inr \<lparr>nrows = 2, ncols = 2, elems = [10, 20, 30, 40]\<rparr> \<and>
   tolist \<lparr>nrows = 2, ncols = 2, elems = [10, 20, 30, 40]\<rparr> = [[10, 20], [30, 40]] \<and>
   length [10, 20, 30 :: u8] < 2 * 2 \<and>
   make_img [10, 20, 30] (int 2 * int 2) [int 2, int 2] = Inl ValueError"
proof -
  have u: "[0..<2] = [0, 1]"
    by (simp add: upt_rec)
  show ?thesis
    using make_img_reshape [of 2 2 "[10, 20, 30, 40]"] make_img_reshape [of 2 2 "[10, 20, 30]"]
    by (simp add: u)
qed

text \<open>
  C7 as stated, that the first \<open>pixel_count\<close> bytes are reshaped for every payload, fails
  on a payload of three bytes with width 2 and height 2.
\<close>

theorem make_img_short_payload:
  "make_img [10, 20, 30] 4 [2, 2] = Inl ValueError"
  by code_simp

section \<open>Properties of the window-size parser\<close>

lemma of_char_digit: "d < 10 \<Longrightarrow> (of_char (char_of (48 + d)) :: nat) = 48 + d"
  by simp

lemma is_digit_char_of: "d < 10 \<Longrightarrow> is_digit (char_of (48 + d :: nat))"
  by (simp add: is_digit_def)

lemma digits_of_digits: "c \<in> set (digits_of n) \<Longrightarrow> is_digit c"
proof (induction n arbitrary: c rule: digits_of.induct)
  case (1 n)
  show ?case
  proof (cases "n < 10")
    case True
    then show ?thesis using "1.prems" by (subst (asm) digits_of.simps) (simp add: is_digit_char_of)
  next
    case False
    have "n mod 10 < 10" by simp
    then have "is_digit (char_of (48 + n mod 10))" by (rule is_digit_char_of)
    then show ?thesis
      using False "1.prems" "1.IH" by (subst (asm) digits_of.simps) auto
  qed
qed

lemma digits_of_nonempty: "digits_of n \<noteq> []"
  by (subst digits_of.simps) simp

lemma digits_value_step:
  "foldl (\<lambda>acc c. 10 * acc + (int (of_char c) - 48)) 0 (digits_of n) = int n"
proof (induction n rule: digits_of.induct)
  case (1 n)
  show ?case
  proof (cases "n < 10")
    case True
    then show ?thesis by (subst digits_of.simps) simp
  next
    case False
    have "n mod 10 < 10" by simp
    then have "(of_char (char_of (48 + n mod 10)) :: nat) = 48 + n mod 10"
      by (rule of_char_digit)
    then have "int (of_char (char_of (48 + n mod 10))) - 48 = int (n mod 10)"
      by simp
    then show ?thesis
      using False "1.IH" by (subst digits_of.simps) (simp add: zmod_int zdiv_int)
  qed
qed


lemma valid_digits_all:
  "ds \<noteq> [] \<Longrightarrow> \<forall>c \<in> set ds. is_digit c \<Longrightarrow> valid_digits ds"
proof (induction ds rule: valid_digits.induct)
  case 1
  then show ?case by simp
next
  case (2 c)
  then show ?case by simp
next
  case (3 c d cs)
  have "d \<noteq> CHR ''_''"
    using "3.prems" by (auto simp: is_digit_def)
  then show ?case using 3 by simp
qed

lemma digit_not_special:
  assumes "is_digit c"
  shows "\<not> is_space c" "c \<noteq> CHR '',''" "c \<noteq> CHR '';''" "c \<noteq> CHR ''_''" "c \<noteq> CHR ''-''" "c \<noteq> CHR ''+''"
  using assms by (auto simp: is_digit_def is_space_def)

lemma dropWhile_hd: "ys \<noteq> [] \<Longrightarrow> \<not> p (hd ys) \<Longrightarrow> dropWhile p ys = ys"
  by (cases ys) simp_all

lemma str_strip_id:
  assumes "xs \<noteq> []" "\<not> p (hd xs)" "\<not> p (last xs)"
  shows "str_strip p xs = xs"
proof -
  have "rev xs \<noteq> []" "hd (rev xs) = last xs"
    using assms by (simp_all add: hd_rev)
  then have "dropWhile p (rev xs) = rev xs"
    using assms by (intro dropWhile_hd) simp_all
  moreover have "dropWhile p xs = xs"
    using assms by (intro dropWhile_hd)
  ultimately show ?thesis
    by (simp add: str_strip_def)
qed

lemma digits_hd_last:
  "is_digit (hd (digits_of n))" "is_digit (last (digits_of n))"
  using digits_of_digits [of _ n] digits_of_nonempty [of n] by simp_all

lemma digits_value_digits_of: "digits_value (digits_of n) = int n"
proof -
  have "filter (\<lambda>c. c \<noteq> CHR ''_'') (digits_of n) = digits_of n"
    using digits_of_digits digit_not_special(4) by (auto simp: filter_id_conv)
  then show ?thesis
    by (simp add: digits_value_def digits_value_step)
qed

lemma py_int_digits: "py_int (digits_of n) = Inr (int n)"
proof -
  have h: "\<not> is_space (hd (digits_of n))" "\<not> is_space (last (digits_of n))"
      "hd (digits_of n) \<noteq> CHR ''-''" "hd (digits_of n) \<noteq> CHR ''+''"
    using digits_hd_last [of n] digit_not_special by blast+
  then have "str_strip is_space (digits_of n) = digits_of n"
    by (intro str_strip_id digits_of_nonempty)
  moreover have "valid_digits (digits_of n)"
    using digits_of_digits by (intro valid_digits_all digits_of_nonempty) blast
  ultimately show ?thesis
    using h by (simp add: py_int_def Let_def digits_value_digits_of)
qed

lemma py_int_minus_digits: "py_int (CHR ''-'' # digits_of n) = Inr (- int n)"
proof -
  have "\<not> is_space (CHR ''-'')"
    by (simp add: is_space_def)
  moreover have "\<not> is_space (last (digits_of n))"
    using digits_hd_last [of n] digit_not_special by blast
  ultimately have "str_strip is_space (CHR ''-'' # digits_of n) = CHR ''-'' # digits_of n"
    using digits_of_nonempty [of n] by (intro str_strip_id) simp_all
  moreover have "valid_digits (digits_of n)"
    using digits_of_digits by (intro valid_digits_all digits_of_nonempty) blast
  ultimately show ?thesis
    by (simp add: py_int_def Let_def digits_value_digits_of)
qed

lemma py_int_decimal: "py_int (decimal i) = Inr i"
  using py_int_digits [of "nat i"] py_int_minus_digits [of "nat (- i)"]
  by (simp add: decimal_def)

lemma decimal_chars:
  assumes "c \<in> set (decimal i)"
  shows "\<not> is_space c" "c \<noteq> CHR '',''" "c \<noteq> CHR '';''"
proof -
  have "c = CHR ''-'' \<or> is_digit c"
    using assms digits_of_digits by (auto simp: decimal_def split: if_splits)
  then show "\<not> is_space c" "c \<noteq> CHR '',''" "c \<noteq> CHR '';''"
    using digit_not_special by (auto simp: is_space_def)
qed

lemma decimal_nonempty: "decimal i \<noteq> []"
  using digits_of_nonempty by (simp add: decimal_def)

lemma str_split_token:
  assumes "t \<noteq> []" "\<forall>c \<in> set t. \<not> is_space c"
  shows "str_split t = [t]"
proof -
  obtain c cs where t: "t = c # cs" using assms by (cases t) auto
  have c: "\<not> is_space c" using assms t by simp
  have tw: "takeWhile (\<lambda>x. \<not> is_space x) cs = cs"
    and dw: "dropWhile (\<lambda>x. \<not> is_space x) cs = []"
    using assms t by simp_all
  show ?thesis
    unfolding t by (simp add: tw dw c)
qed

lemma str_split_token_space:
  assumes "t \<noteq> []" "\<forall>c \<in> set t. \<not> is_space c" "is_space sp"
  shows "str_split (t @ sp # rest) = t # str_split rest"
proof -
  obtain c cs where t: "t = c # cs" using assms by (cases t) auto
  have c: "\<not> is_space c" using assms t by simp
  have tw: "takeWhile (\<lambda>x. \<not> is_space x) (cs @ sp # rest) = cs"
    and dw: "dropWhile (\<lambda>x. \<not> is_space x) (cs @ sp # rest) = sp # rest"
    using assms t by simp_all
  show ?thesis
    unfolding t using assms(3) by (simp add: tw dw c)
qed

lemma split_on_none: "sep \<notin> set a \<Longrightarrow> split_on sep a = [a]"
  by (induction a) auto

lemma split_on_first: "sep \<notin> set a \<Longrightarrow> split_on sep (a @ sep # rest) = a # split_on sep rest"
  by (induction a) auto


lemma str_strip_trailing:
  assumes "xs \<noteq> []" "\<not> p (hd xs)" "\<not> p (last xs)" "p c"
  shows "str_strip p (xs @ [c]) = xs"
proof -
  have "dropWhile p (xs @ [c]) = xs @ [c]"
    using assms by (intro dropWhile_hd) simp_all
  moreover have "rev xs \<noteq> []" "hd (rev xs) = last xs"
    using assms by (simp_all add: hd_rev)
  then have "dropWhile p (rev xs) = rev xs"
    using assms by (intro dropWhile_hd) simp_all
  ultimately show ?thesis
    using assms(4) by (simp add: str_strip_def)
qed

text \<open>
  C8, as the code has it. \<open>parse_win_size_message\<close> checks no sign: for all integers
  \<open>w\<close> and \<open>h\<close>, zero and negative ones included, the response
  \<^verbatim>\<open>DATA:US_WIN_SIZE w,h;\<close> is accepted, \<open>[w, h]\<close> is stored as the geometry and
  \<open>w * h\<close> as the pixel count, and nothing is raised.
\<close>

theorem parse_win_size_message_any_sign:
  "parse_win_size_message s (''DATA:US_WIN_SIZE '' @ decimal w @ '','' @ decimal h @ '';'') =
     (Inr (), s\<lparr>image_size := [w, h], pixels_in_image := w * h\<rparr>)"
proof -
  define dims where "dims = decimal w @ '','' @ decimal h"
  define R where "R = dims @ '';''"
  have dims_ne: "dims \<noteq> []"
    by (simp add: dims_def)
  have hd_dims: "hd dims \<noteq> CHR '';''"
    using decimal_chars(3) [of "hd (decimal w)" w] decimal_nonempty [of w]
    by (simp add: dims_def)
  have last_dims: "last dims \<noteq> CHR '';''"
    using decimal_chars(3) [of "last (decimal h)" h] decimal_nonempty [of h]
    by (simp add: dims_def)
  have R_chars: "\<forall>c \<in> set R. \<not> is_space c"
    using decimal_chars(1) by (auto simp: R_def dims_def is_space_def)
  have "str_split (''DATA:US_WIN_SIZE'' @ CHR '' '' # R) = ''DATA:US_WIN_SIZE'' # str_split R"
    by (rule str_split_token_space) (simp_all add: is_space_def)
  moreover have "str_split R = [R]"
    using R_chars by (intro str_split_token) (simp_all add: R_def)
  ultimately have tokens:
    "str_split (''DATA:US_WIN_SIZE '' @ decimal w @ '','' @ decimal h @ '';'') = [''DATA:US_WIN_SIZE'', R]"
    by (simp add: R_def dims_def)
  have strip: "str_strip (\<lambda>c. c = CHR '';'') R = dims"
    unfolding R_def using dims_ne hd_dims last_dims by (intro str_strip_trailing) simp_all
  have "split_on CHR '','' (decimal w @ CHR '','' # decimal h) = decimal w # split_on CHR '','' (decimal h)"
    using decimal_chars(2) [of _ w] by (intro split_on_first) blast
  moreover have "split_on CHR '','' (decimal h) = [decimal h]"
    using decimal_chars(2) [of _ h] by (intro split_on_none) blast
  ultimately have parts: "split_on CHR '','' dims = [decimal w, decimal h]"
    by (simp add: dims_def)
  show ?thesis
    by (simp add: parse_win_size_message_def tokens strip parts py_int_decimal Let_def del: append.simps)
qed

text \<open>
  C8 as stated, that a zero or negative width or height raises an error, fails on the
  response \<^verbatim>\<open>DATA:US_WIN_SIZE 0,-480;\<close>, which is stored as it is.
\<close>

theorem parse_win_size_message_accepts_nonpositive:
  "parse_win_size_message \<lparr>buffer = [], image_size = [0, 0], pixels_in_image = 0, img = None\<rparr>
     ''DATA:US_WIN_SIZE 0,-480;'' =
   (Inr (), \<lparr>buffer = [], image_size = [0, - 480], pixels_in_image = 0, img = None\<rparr>)"
  by code_simp

end
